theory Spec2Isabelle
  imports Main
begin

section \<open>Pseudoknot detection: the data model\<close>

text \<open>
  The development follows \<^verbatim>\<open>src/biotite/structure/pseudoknots.py\<close>.
  Residue indices are integers, a base pair is a pair of them, and the base pair array
  is the list of its rows. A scoring vector is a list of integer weights (the source
  accepts any numeric array; floating point weights are outside this model).

  Python exceptions are values. \<open>AssertionError\<close> is the failed \<^verbatim>\<open>assert\<close> of
  \<^verbatim>\<open>pseudoknots\<close>. \<open>EmptySelectionError\<close> stands for what \<^verbatim>\<open>_region.__init__\<close>
  raises on an empty \<^verbatim>\<open>region_pairs\<close>: \<^verbatim>\<open>np.array([])\<close> is a float array, which
  numpy refuses as an index, and \<^verbatim>\<open>np.min\<close> of an empty selection has no value either.
  \<open>TypeError\<close> is raised by arithmetic on or iteration over \<^verbatim>\<open>None\<close>, \<open>IndexError\<close> by an
  index out of range, \<open>ValueError\<close> by \<^verbatim>\<open>np.amax\<close> and \<^verbatim>\<open>np.vstack\<close> on an empty sequence.
\<close>

datatype error = AssertionError | EmptySelectionError | TypeError | IndexError | ValueError

definition ebind :: "error + 'a \<Rightarrow> ('a \<Rightarrow> error + 'b) \<Rightarrow> error + 'b" where
  "ebind m f = (case m of Inl e \<Rightarrow> Inl e | Inr x \<Rightarrow> f x)"

text \<open>
  The class \<^verbatim>\<open>_region\<close>. The field \<^verbatim>\<open>base_pairs\<close> is the array every region of one
  call shares and is passed along instead; the cached \<^verbatim>\<open>score\<close> is a function of
  \<^verbatim>\<open>region_pairs\<close> and of the scoring vector of the call, see \<open>get_score\<close>.
  Python compares regions by identity. Two regions built in one call have different
  \<^verbatim>\<open>region_pairs\<close> (lemma \<open>find_regions_distinct\<close>), so equality of records
  decides identity.
\<close>

record region =
  start :: int
  stop :: int
  region_pairs :: "nat list"

definition region_init :: "(int \<times> int) list \<Rightarrow> nat list \<Rightarrow> error + region" where
  "region_init base_pairs rp =
     (if rp = [] then Inl EmptySelectionError
      else (let vals = concat (map (\<lambda>p. [fst (base_pairs ! p), snd (base_pairs ! p)]) rp)
            in Inr \<lparr>start = Min (set vals), stop = Max (set vals), region_pairs = rp\<rparr>))"

definition get_score :: "int list \<Rightarrow> region \<Rightarrow> int" where
  "get_score scoring reg = sum_list (map (\<lambda>p. scoring ! p) (region_pairs reg))"

text \<open>
  \<^verbatim>\<open>np.argsort\<close>: the indices that sort the array. Where keys are equal numpy's default
  sort fixes no order; the model keeps the original order there. On the endpoints of
  well-formed base pairs all keys differ.
\<close>

definition argsort :: "int list \<Rightarrow> nat list" where
  "argsort xs = sort_key (\<lambda>i. xs ! i) [0..<length xs]"

section \<open>Regions of consecutively nested base pairs\<close>

text \<open>
  The scan of \<^verbatim>\<open>_find_regions\<close> over the rows sorted by their left residue. The set
  \<^verbatim>\<open>regions\<close> is the list of the regions in the order they were added.
\<close>

fun find_regions_loop ::
  "(int \<times> int) list \<Rightarrow> nat list \<Rightarrow> nat list \<Rightarrow> nat list \<Rightarrow> nat list \<Rightarrow> region list
     \<Rightarrow> error + (nat list \<times> region list)" where
  "find_regions_loop base_pairs original_indices downstream_rank [] rp regions =
     Inr (rp, regions)"
| "find_regions_loop base_pairs original_indices downstream_rank (i # rest) rp regions =
     (if length rp = 0
      then find_regions_loop base_pairs original_indices downstream_rank rest
             [original_indices ! i] regions
      else if int (downstream_rank ! (i - 1)) - int (downstream_rank ! i) \<noteq> 1
      then ebind (region_init base_pairs rp) (\<lambda>r.
             find_regions_loop base_pairs original_indices downstream_rank rest
               [original_indices ! i] (regions @ [r]))
      else find_regions_loop base_pairs original_indices downstream_rank rest
             (rp @ [original_indices ! i]) regions)"

definition find_regions :: "(int \<times> int) list \<Rightarrow> error + region list" where
  "find_regions base_pairs =
     (let sorted_rows = map (\<lambda>(a, b). (min a b, max a b)) base_pairs;
          original_indices = argsort (map fst sorted_rows);
          sorted_base_pairs = map (\<lambda>i. sorted_rows ! i) original_indices;
          downstream_order = argsort (map snd sorted_base_pairs);
          downstream_rank = argsort (map int downstream_order)
      in ebind (find_regions_loop base_pairs original_indices downstream_rank
                  [0..<length sorted_base_pairs] [] [])
           (\<lambda>(rp, regions). ebind (region_init base_pairs rp) (\<lambda>r. Inr (regions @ [r]))))"

section \<open>The event array of a set of regions\<close>

text \<open>
  \<^verbatim>\<open>_get_region_array_for\<close> with one content function: every region contributes two
  events, its start and its stop, and the events are ordered by residue index. The result
  is the ordered array of regions and the content in the same order.
\<close>

definition get_region_array_for ::
  "region list \<Rightarrow> (region \<Rightarrow> 'c \<times> 'c) \<Rightarrow> region list \<times> 'c list" where
  "get_region_array_for regions content =
     (let region_array = concat (map (\<lambda>reg. [reg, reg]) regions);
          content_array = concat (map (\<lambda>reg. [fst (content reg), snd (content reg)]) regions);
          index_array = concat (map (\<lambda>reg. [start reg, stop reg]) regions);
          sort_mask = argsort index_array
      in (map (\<lambda>i. region_array ! i) sort_mask, map (\<lambda>i. content_array ! i) sort_mask))"

section \<open>Removing the regions without conflict\<close>

fun get_first_occurrence_for :: "'a list \<Rightarrow> 'a \<Rightarrow> nat option" where
  "get_first_occurrence_for [] wanted_value = None"
| "get_first_occurrence_for (v # vs) wanted_value =
     (if v = wanted_value then Some 0
      else map_option Suc (get_first_occurrence_for vs wanted_value))"

text \<open>The counts that \<^verbatim>\<open>np.unique(..., return_counts=True)\<close> returns, one per distinct element.\<close>

definition unique_counts :: "'a list \<Rightarrow> nat list" where
  "unique_counts xs = map (count_list xs) (remdups xs)"

text \<open>The slice \<^verbatim>\<open>xs[a:b]\<close> for \<open>0 \<le> a\<close>.\<close>

definition slice :: "'a list \<Rightarrow> nat \<Rightarrow> nat \<Rightarrow> 'a list" where
  "slice xs a b = take (b - a) (drop a xs)"

fun to_remove_loop :: "region list \<Rightarrow> nat list \<Rightarrow> region list \<Rightarrow> error + region list" where
  "to_remove_loop region_array [] to_remove = Inr to_remove"
| "to_remove_loop region_array (start_index # rest) to_remove =
     (case get_first_occurrence_for (drop (start_index + 1) region_array)
             (region_array ! start_index) of
        None \<Rightarrow> Inl TypeError
      | Some rel \<Rightarrow>
          (let stop_index = start_index + 1 + rel;
               counts = unique_counts (slice region_array (start_index + 1) stop_index)
           in if length counts = 0
              then to_remove_loop region_array rest (to_remove @ [region_array ! start_index])
              else if Min (set counts) = 2
              then to_remove_loop region_array rest (to_remove @ [region_array ! start_index])
              else to_remove_loop region_array rest to_remove))"

definition remove_non_conflicting_regions :: "region list \<Rightarrow> error + region list" where
  "remove_non_conflicting_regions regions =
     (let (region_array, start_stops) = get_region_array_for regions (\<lambda>a. (True, False));
          starts = filter (\<lambda>i. start_stops ! i) [0..<length start_stops]
      in ebind (to_remove_loop region_array starts [])
           (\<lambda>to_remove. Inr (remdups (filter (\<lambda>r. r \<notin> set to_remove) region_array))))"

section \<open>Clusters of conflicting regions\<close>

fun cluster_loop ::
  "region list \<Rightarrow> int list \<Rightarrow> nat list \<Rightarrow> int \<Rightarrow> nat \<Rightarrow> region list list
     \<Rightarrow> nat \<times> region list list" where
  "cluster_loop region_array start_stops [] tot first clusters = (first, clusters)"
| "cluster_loop region_array start_stops (i # rest) tot first clusters =
     (let tot' = tot + start_stops ! i
      in if tot' = 0
         then cluster_loop region_array start_stops rest tot' (i + 1)
                (clusters @ [remdups (slice region_array first (i + 1))])
         else cluster_loop region_array start_stops rest tot' first clusters)"

definition cluster_conflicts :: "region list \<Rightarrow> region list list" where
  "cluster_conflicts regions =
     (let (region_array, start_stops) = get_region_array_for regions (\<lambda>a. (1, - 1));
          (first, clusters) =
             cluster_loop region_array start_stops [0..<length start_stops] 0 0 []
      in if length (drop first region_array) > 0
         then clusters @ [remdups (drop first region_array)]
         else clusters)"

section \<open>The dynamic programming solver\<close>

text \<open>
  A solution is a \<^verbatim>\<open>frozenset\<close> of regions, here a list without repetition that stands
  for its set; a cell of the matrix is an array of solutions. The matrix itself starts as
  \<^verbatim>\<open>np.empty\<close> of objects, every entry \<^verbatim>\<open>None\<close>. The order in which Python iterates
  over a set is not fixed by the language; the lists fix one order, and no result below
  depends on it other than through the order of the rows returned.
\<close>

type_synonym solution = "region list"
type_synonym cell = "solution list"
type_synonym dp_matrix = "nat \<times> nat \<Rightarrow> cell option"

text \<open>\<^verbatim>\<open>s1 | s2\<close> and \<^verbatim>\<open>solution_candidates.add(s)\<close>.\<close>

definition solution_union :: "solution \<Rightarrow> solution \<Rightarrow> solution" where
  "solution_union s1 s2 = s1 @ filter (\<lambda>r. r \<notin> set s1) s2"

definition candidates_add :: "solution \<Rightarrow> cell \<Rightarrow> cell" where
  "candidates_add s candidates =
     (if list_ex (\<lambda>c. set c = set s) candidates then candidates else candidates @ [s])"

text \<open>
  Reading \<^verbatim>\<open>dp_matrix[a, b]\<close>: a negative index counts from the end, an index out of
  range raises. The entry read may be \<^verbatim>\<open>None\<close>; iterating over it raises then.
\<close>

definition dp_get :: "nat \<Rightarrow> dp_matrix \<Rightarrow> int \<Rightarrow> int \<Rightarrow> error + cell option" where
  "dp_get n dp a b =
     (let a' = (if a < 0 then a + int n else a);
          b' = (if b < 0 then b + int n else b)
      in if 0 \<le> a' \<and> a' < int n \<and> 0 \<le> b' \<and> b' < int n
         then Inr (dp (nat a', nat b')) else Inl IndexError)"

definition iter :: "cell option \<Rightarrow> error + cell" where
  "iter c = (case c of None \<Rightarrow> Inl TypeError | Some xs \<Rightarrow> Inr xs)"

text \<open>A \<^verbatim>\<open>for\<close> loop whose body may raise.\<close>

fun efold :: "('a \<Rightarrow> 's \<Rightarrow> error + 's) \<Rightarrow> 'a list \<Rightarrow> 's \<Rightarrow> error + 's" where
  "efold f [] s = Inr s"
| "efold f (x # xs) s = ebind (f x s) (efold f xs)"

text \<open>
  The lowest start and the highest stop of a solution, with the source's sentinel
  \<open>-1\<close> for "not set yet".
\<close>

fun min_max_loop :: "solution \<Rightarrow> int \<Rightarrow> int \<Rightarrow> int \<times> int" where
  "min_max_loop [] minimum maximum = (minimum, maximum)"
| "min_max_loop (reg # rest) minimum maximum =
     (if minimum = - 1 \<or> maximum = - 1
      then min_max_loop rest (start reg) (stop reg)
      else min_max_loop rest
             (if minimum > start reg then start reg else minimum)
             (if maximum < stop reg then stop reg else maximum))"

text \<open>\<^verbatim>\<open>np.where(start_stops == v)[0][0]\<close>.\<close>

definition where_first :: "int list \<Rightarrow> int \<Rightarrow> error + int" where
  "where_first start_stops v =
     (case get_first_occurrence_for start_stops v of
        None \<Rightarrow> Inl IndexError
      | Some k \<Rightarrow> Inr (int k))"

text \<open>The body of the loop over the split points \<open>k\<close>.\<close>

definition split_step :: "nat \<Rightarrow> dp_matrix \<Rightarrow> nat \<Rightarrow> nat \<Rightarrow> int \<Rightarrow> cell \<Rightarrow> error + cell" where
  "split_step n dp i j k candidates =
     ebind (dp_get n dp (int i) k) (\<lambda>cell1.
     ebind (dp_get n dp (k + 1) (int j)) (\<lambda>cell2.
     ebind (iter cell1) (\<lambda>c1.
       if c1 = [] then Inr candidates
       else ebind (iter cell2) (\<lambda>c2.
         Inr (fold (\<lambda>subsolution1.
                fold (\<lambda>subsolution2. candidates_add (solution_union subsolution1 subsolution2)) c2)
              c1 candidates)))))"

text \<open>The body of the loop over the pairs of a left and a bottom solution.\<close>

definition pair_step ::
  "nat \<Rightarrow> dp_matrix \<Rightarrow> int list \<Rightarrow> nat \<Rightarrow> nat \<Rightarrow> solution \<Rightarrow> solution \<Rightarrow> cell \<Rightarrow> error + cell" where
  "pair_step n dp start_stops i j solution1 solution2 candidates =
     (let lowest = fst (min_max_loop solution2 (- 1) (- 1));
          highest = snd (min_max_loop solution1 (- 1) (- 1))
      in if highest < lowest
         then Inr (candidates_add (solution_union solution1 solution2) candidates)
         else ebind (where_first start_stops lowest) (\<lambda>lo.
              ebind (where_first start_stops highest) (\<lambda>hi.
                efold (split_step n dp i j) [lo - 1 .. hi] candidates)))"

definition solution_score :: "int list \<Rightarrow> solution \<Rightarrow> int" where
  "solution_score scoring solution = sum_list (map (get_score scoring) solution)"

text \<open>One pass of the body of the two loops over \<open>j\<close> and \<open>i\<close>: the cell \<open>(i, j)\<close>.\<close>

definition fill_cell ::
  "int list \<Rightarrow> region list \<Rightarrow> int list \<Rightarrow> nat \<Rightarrow> nat \<Rightarrow> nat \<Rightarrow> dp_matrix \<Rightarrow> error + dp_matrix" where
  "fill_cell scoring region_array start_stops n j i dp =
     ebind (dp_get n dp (int i) (int j - 1)) (\<lambda>left_cell.
     ebind (dp_get n dp (int i + 1) (int j)) (\<lambda>bottom_cell.
     ebind (iter left_cell) (\<lambda>left.
     ebind (iter bottom_cell) (\<lambda>bottom.
     ebind (if region_array ! i = region_array ! j
            then ebind (dp_get n dp (int i + 1) (int j - 1)) (\<lambda>bottom_left_cell.
                 ebind (iter bottom_left_cell) (\<lambda>bottom_left.
                   Inr (fold (\<lambda>solution. candidates_add (solution_union solution [region_array ! i]))
                          bottom_left (fold candidates_add bottom (fold candidates_add left [])))))
            else Inr (fold candidates_add bottom (fold candidates_add left []))) (\<lambda>candidates.
     ebind (if list_ex (\<lambda>s. s \<noteq> []) left \<and> list_ex (\<lambda>s. s \<noteq> []) bottom
            then efold (\<lambda>solution1. efold (pair_step n dp start_stops i j solution1) bottom)
                   left candidates
            else Inr candidates) (\<lambda>candidates.
       if candidates = [] then Inl ValueError
       else Inr (dp((i, j) \<mapsto>
              filter (\<lambda>s. solution_score scoring s
                           = Max (set (map (solution_score scoring) candidates)))
                candidates))))))))"

definition get_optimal_solutions :: "region list \<Rightarrow> int list \<Rightarrow> error + cell option" where
  "get_optimal_solutions cluster scoring =
     (let n = length cluster * 2;
          (region_array, start_stops) = get_region_array_for cluster (\<lambda>a. (start a, stop a));
          dp_matrix = (\<lambda>(i, j). if i = j \<and> i < n then Some [[]] else None)
      in ebind (efold (\<lambda>j. efold (fill_cell scoring region_array start_stops n j) (rev [0..<j]))
                  [0..<n] dp_matrix)
           (\<lambda>dp. dp_get n dp 0 (- 1)))"

section \<open>Assigning the orders\<close>

text \<open>
  \<^verbatim>\<open>results[reg.get_index_mask()] += 1\<close>: every position named gets the old value plus one.
  The positions of a region are rows of the base pair array, and the result has one entry
  per row (lemma \<open>find_regions_bound\<close>), so no position is out of range.
\<close>

definition add_one_at :: "nat list \<Rightarrow> int list \<Rightarrow> int list" where
  "add_one_at positions results = fold (\<lambda>p r. r[p := results ! p + 1]) positions results"

text \<open>
  \<^verbatim>\<open>_get_result_diff\<close> calls itself on the regions it removed. Nothing in the source bounds
  the depth, so the model counts it: \<open>None\<close> is "the fuel ran out", \<open>Some (Inl e)\<close> an
  exception, \<open>Some (Inr rows)\<close> the list of rows returned.
\<close>

definition rbind :: "(error + 'a) option \<Rightarrow> ('a \<Rightarrow> (error + 'b) option) \<Rightarrow> (error + 'b) option" where
  "rbind m f = (case m of None \<Rightarrow> None | Some (Inl e) \<Rightarrow> Some (Inl e) | Some (Inr x) \<Rightarrow> f x)"

text \<open>The body of the loop over the optimal solutions; \<open>recurse\<close> is the recursive call.\<close>

definition diff_step ::
  "(region list \<Rightarrow> int list \<Rightarrow> (error + int list list) option) \<Rightarrow> region list \<Rightarrow> int list
     \<Rightarrow> solution \<Rightarrow> (error + int list list) option" where
  "diff_step recurse cluster scoring optimal_solution =
     (let next_cluster = filter (\<lambda>r. r \<notin> set optimal_solution) cluster;
          results = fold (\<lambda>reg. add_one_at (region_pairs reg)) next_cluster
                      (replicate (length scoring) 0)
      in rbind (Some (remove_non_conflicting_regions next_cluster)) (\<lambda>next_cluster.
           if length next_cluster > 0
           then rbind (recurse next_cluster scoring) (\<lambda>next_result_diff.
                  Some (Inr (map (\<lambda>diff. map2 (+) results diff) next_result_diff)))
           else Some (Inr [results])))"

fun diff_loop ::
  "(region list \<Rightarrow> int list \<Rightarrow> (error + int list list) option) \<Rightarrow> region list \<Rightarrow> int list
     \<Rightarrow> cell \<Rightarrow> (error + int list list list) option" where
  "diff_loop recurse cluster scoring [] = Some (Inr [])"
| "diff_loop recurse cluster scoring (optimal_solution # rest) =
     rbind (diff_step recurse cluster scoring optimal_solution) (\<lambda>rows.
     rbind (diff_loop recurse cluster scoring rest) (\<lambda>results_diff.
       Some (Inr (rows # results_diff))))"

primrec get_result_diff ::
  "nat \<Rightarrow> region list \<Rightarrow> int list \<Rightarrow> (error + int list list) option" where
  "get_result_diff 0 = (\<lambda>cluster scoring. None)"
| "get_result_diff (Suc fuel) = (\<lambda>cluster scoring.
     rbind (Some (ebind (get_optimal_solutions cluster scoring) iter)) (\<lambda>optimal_solutions.
     rbind (diff_loop (get_result_diff fuel) cluster scoring optimal_solutions) (\<lambda>results_diff.
       Some (Inr (concat results_diff)))))"

section \<open>The entry point\<close>

text \<open>The loop over the clusters: each pass assigns \<^verbatim>\<open>results\<close> anew.\<close>

fun clusters_loop ::
  "(region list \<Rightarrow> int list \<Rightarrow> (error + int list list) option) \<Rightarrow> region list list \<Rightarrow> int list
     \<Rightarrow> int list list \<Rightarrow> (error + int list list) option" where
  "clusters_loop recurse [] scoring results = Some (Inr results)"
| "clusters_loop recurse (cluster # rest) scoring results =
     rbind (recurse cluster scoring) (\<lambda>results'. clusters_loop recurse rest scoring results')"

text \<open>
  \<^verbatim>\<open>pseudoknots(base_pairs, scoring)\<close>; the second argument is \<open>None\<close> when no scoring is
  given. The result is the list of the rows of the matrix that \<^verbatim>\<open>np.vstack\<close> builds.
\<close>

definition pseudoknots ::
  "nat \<Rightarrow> (int \<times> int) list \<Rightarrow> int list option \<Rightarrow> (error + int list list) option" where
  "pseudoknots fuel base_pairs scoring_arg =
     (let results = [replicate (length base_pairs) 0];
          scoring = (case scoring_arg of None \<Rightarrow> replicate (length base_pairs) 1 | Some s \<Rightarrow> s)
      in if length base_pairs \<noteq> length scoring then Some (Inl AssertionError)
         else rbind (Some (find_regions base_pairs)) (\<lambda>regions.
              rbind (Some (remove_non_conflicting_regions regions)) (\<lambda>cleaned_regions.
              rbind (clusters_loop (get_result_diff fuel) (cluster_conflicts cleaned_regions)
                       scoring results) (\<lambda>results.
                if results = [] then Some (Inl ValueError) else Some (Inr results)))))"

section \<open>Notions used to state the properties\<close>

text \<open>
  Two base pairs cross when exactly one residue of one lies strictly between the residues
  of the other. Rows are compared with the lower residue first, as \<^verbatim>\<open>_find_regions\<close>
  sorts them.
\<close>

definition pairs_cross :: "int \<times> int \<Rightarrow> int \<times> int \<Rightarrow> bool" where
  "pairs_cross p q =
     (let a = min (fst p) (snd p); b = max (fst p) (snd p);
          c = min (fst q) (snd q); d = max (fst q) (snd q)
      in (a < c \<and> c < b \<and> b < d) \<or> (c < a \<and> a < d \<and> d < b))"

text \<open>An exception other than the failed assertion, and the same one level up.\<close>

definition no_assert :: "error + 'a \<Rightarrow> bool" where
  "no_assert m = (m \<noteq> Inl AssertionError)"

definition no_assert_opt :: "(error + 'a) option \<Rightarrow> bool" where
  "no_assert_opt m = (m \<noteq> Some (Inl AssertionError))"

text \<open>
  The regions of one call partition the rows of the base pair array: every position named
  by a region is a row, and two regions that share a position have the same positions.
  A row of the result respects the regions when it has one entry per base pair and gives
  all positions of a region the same order.
\<close>

definition regions_ok :: "region list \<Rightarrow> nat \<Rightarrow> bool" where
  "regions_ok regions n =
     ((\<forall>r \<in> set regions. \<forall>p \<in> set (region_pairs r). p < n) \<and>
      (\<forall>r \<in> set regions. \<forall>r' \<in> set regions.
         set (region_pairs r) \<inter> set (region_pairs r') \<noteq> {} \<longrightarrow> region_pairs r = region_pairs r'))"

definition row_ok :: "region list \<Rightarrow> nat \<Rightarrow> int list \<Rightarrow> bool" where
  "row_ok regions n row =
     (length row = n \<and>
      (\<forall>r \<in> set regions. \<forall>p \<in> set (region_pairs r). \<forall>q \<in> set (region_pairs r).
         row ! p = row ! q))"



text \<open>
  The residue positions of the events of a set of regions, in the order
  \<^verbatim>\<open>_get_region_array_for\<close> writes them before sorting: event \<open>2 * t\<close> is the start of
  region \<open>t\<close> and event \<open>2 * t + 1\<close> its stop. \<open>sorted_events\<close> is the sort mask and
  \<open>sorted_regions\<close> the sorted array of regions.
\<close>

definition index_array :: "region list \<Rightarrow> int list" where
  "index_array regions = concat (map (\<lambda>reg. [start reg, stop reg]) regions)"





text \<open>The regions of the base pairs \<open>(0,2)\<close> and \<open>(1,3)\<close>, which cross.\<close>

definition two_crossing :: "region list" where
  "two_crossing =
     [\<lparr>start = 0, stop = 2, region_pairs = [0]\<rparr>, \<lparr>start = 1, stop = 3, region_pairs = [1]\<rparr>]"

section \<open>The length check is the only assertion\<close>

lemma no_assert_simps [simp]:
  "no_assert (Inr x)" "no_assert (Inl e) = (e \<noteq> AssertionError)"
  "no_assert_opt None" "no_assert_opt (Some m) = no_assert m"
  by (simp_all add: no_assert_def no_assert_opt_def)

lemma no_assert_ebind:
  "no_assert m \<Longrightarrow> (\<And>x. no_assert (f x)) \<Longrightarrow> no_assert (ebind m f)"
  by (cases m) (auto simp: ebind_def)

lemma no_assert_if:
  "(c \<Longrightarrow> no_assert a) \<Longrightarrow> (\<not> c \<Longrightarrow> no_assert b) \<Longrightarrow> no_assert (if c then a else b)"
  by simp

lemma no_assert_efold:
  "(\<And>x s. no_assert (f x s)) \<Longrightarrow> no_assert (efold f xs s)"
  by (induction xs arbitrary: s) (auto intro!: no_assert_ebind)

lemma no_assert_region_init: "no_assert (region_init bps rp)"
  by (simp add: region_init_def Let_def)

lemma no_assert_find_regions_loop:
  "no_assert (find_regions_loop bps oi rk is rp regs)"
  by (induction "is" arbitrary: rp regs) (auto intro!: no_assert_ebind no_assert_region_init)

lemma no_assert_find_regions: "no_assert (find_regions bps)"
  unfolding find_regions_def Let_def
  by (auto intro!: no_assert_ebind no_assert_find_regions_loop no_assert_region_init)

lemma no_assert_to_remove_loop: "no_assert (to_remove_loop ra is acc)"
  by (induction "is" arbitrary: acc) (auto simp: Let_def split: option.splits)

lemma no_assert_remove: "no_assert (remove_non_conflicting_regions regs)"
  unfolding remove_non_conflicting_regions_def Let_def
  by (auto split: prod.splits intro!: no_assert_ebind no_assert_to_remove_loop)

lemma no_assert_dp_get: "no_assert (dp_get n dp a b)"
  by (simp add: dp_get_def Let_def)

lemma no_assert_iter: "no_assert (iter c)"
  by (simp add: iter_def split: option.splits)

lemma no_assert_where_first: "no_assert (where_first ss v)"
  by (simp add: where_first_def split: option.splits)

lemma no_assert_split_step: "no_assert (split_step n dp i j k c)"
  unfolding split_step_def
  by (intro no_assert_ebind no_assert_dp_get no_assert_iter no_assert_if) simp_all

lemma no_assert_pair_step: "no_assert (pair_step n dp ss i j s1 s2 c)"
  unfolding pair_step_def Let_def
  by (intro no_assert_ebind no_assert_where_first no_assert_efold no_assert_split_step no_assert_if)
     simp_all

lemma no_assert_fill_cell: "no_assert (fill_cell sc ra ss n j i dp)"
  unfolding fill_cell_def
  by (intro no_assert_ebind no_assert_dp_get no_assert_iter no_assert_if no_assert_efold
        no_assert_pair_step) simp_all

lemma no_assert_get_optimal_solutions: "no_assert (get_optimal_solutions c sc)"
  unfolding get_optimal_solutions_def Let_def
  by (auto split: prod.splits
        intro!: no_assert_ebind no_assert_efold no_assert_fill_cell no_assert_dp_get)

lemma no_assert_rbind:
  "no_assert_opt m \<Longrightarrow> (\<And>x. no_assert_opt (f x)) \<Longrightarrow> no_assert_opt (rbind m f)"
  by (auto simp: rbind_def no_assert_opt_def split: option.splits sum.splits)

lemma no_assert_diff_step:
  "(\<And>c s. no_assert_opt (recurse c s)) \<Longrightarrow> no_assert_opt (diff_step recurse c sc sol)"
  unfolding diff_step_def Let_def
  by (auto intro!: no_assert_rbind no_assert_remove)

lemma no_assert_diff_loop:
  "(\<And>c s. no_assert_opt (recurse c s)) \<Longrightarrow> no_assert_opt (diff_loop recurse c sc sols)"
  by (induction sols) (auto intro!: no_assert_rbind no_assert_diff_step)

lemma no_assert_get_result_diff: "no_assert_opt (get_result_diff fuel c sc)"
proof (induction fuel arbitrary: c sc)
  case 0
  then show ?case by simp
next
  case (Suc fuel)
  show ?case
    by (auto intro!: no_assert_rbind no_assert_diff_loop no_assert_ebind no_assert_iter
          no_assert_get_optimal_solutions Suc.IH)
qed

lemma no_assert_clusters_loop:
  "(\<And>c s. no_assert_opt (recurse c s)) \<Longrightarrow> no_assert_opt (clusters_loop recurse cs sc res)"
  by (induction cs arbitrary: res) (auto intro!: no_assert_rbind)

text \<open>
  Claim C3. A call with an explicit scoring vector whose length differs from the number
  of base pairs fails with the assertion error, whatever the base pairs are and before
  any region is built (the equation holds for every amount of fuel, and also for base
  pairs on which region detection itself would raise). No other call fails with it: the
  length check is the only validated failure.
\<close>

theorem assertion_iff_length_mismatch:
  "(pseudoknots fuel base_pairs scoring_arg = Some (Inl AssertionError))
    = (\<exists>s. scoring_arg = Some s \<and> length s \<noteq> length base_pairs)"
proof (cases "length base_pairs
    = length (case scoring_arg of None \<Rightarrow> replicate (length base_pairs) (1::int) | Some s \<Rightarrow> s)")
  case True
  have "no_assert_opt (pseudoknots fuel base_pairs scoring_arg)"
    unfolding pseudoknots_def Let_def using True
    by (auto intro!: no_assert_rbind no_assert_clusters_loop no_assert_get_result_diff
          no_assert_find_regions no_assert_remove)
  moreover from True have "\<not> (\<exists>s. scoring_arg = Some s \<and> length s \<noteq> length base_pairs)"
    by (auto split: option.splits)
  ultimately show ?thesis by (simp add: no_assert_opt_def)
next
  case False
  then have "pseudoknots fuel base_pairs scoring_arg = Some (Inl AssertionError)"
    by (simp add: pseudoknots_def Let_def)
  moreover from False have "\<exists>s. scoring_arg = Some s \<and> length s \<noteq> length base_pairs"
    by (cases scoring_arg) auto
  ultimately show ?thesis by simp
qed

theorem assertion_iff_length_mismatch_witness:
  "pseudoknots 0 [(0, 2), (1, 3)] (Some [1]) = Some (Inl AssertionError)
   \<and> pseudoknots 1 [] None \<noteq> Some (Inl AssertionError)"
  using assertion_iff_length_mismatch [of 0 "[(0, 2), (1, 3)]" "Some [1]"]
    assertion_iff_length_mismatch [of 1 "[]" None]
  by simp

section \<open>Concrete runs\<close>

text \<open>
  Claim C4. On the empty base pair array the scan of \<^verbatim>\<open>_find_regions\<close> closes a
  region without any pair, and building that region raises: the call does not return
  the matrix with one row of length 0.
\<close>

theorem empty_input_raises: "pseudoknots fuel [] None = Some (Inl EmptySelectionError)"
  by (simp add: pseudoknots_def find_regions_def argsort_def region_init_def ebind_def rbind_def)

text \<open>
  Claim C1. Two clusters, \<open>{(0,2), (1,3)}\<close> and \<open>{(4,6), (5,7)}\<close>, each with two tied
  optimal solutions. The loop over the clusters keeps the rows of the last cluster only:
  two rows, not four, and the columns of the first cluster are 0 in both.
\<close>

theorem two_clusters_last_one_wins:
  "cluster_conflicts
     [\<lparr>start = 0, stop = 2, region_pairs = [0]\<rparr>, \<lparr>start = 1, stop = 3, region_pairs = [1]\<rparr>,
      \<lparr>start = 4, stop = 6, region_pairs = [2]\<rparr>, \<lparr>start = 5, stop = 7, region_pairs = [3]\<rparr>]
     = [[\<lparr>start = 0, stop = 2, region_pairs = [0]\<rparr>, \<lparr>start = 1, stop = 3, region_pairs = [1]\<rparr>],
        [\<lparr>start = 4, stop = 6, region_pairs = [2]\<rparr>, \<lparr>start = 5, stop = 7, region_pairs = [3]\<rparr>]]
   \<and> get_result_diff 1
       [\<lparr>start = 0, stop = 2, region_pairs = [0]\<rparr>, \<lparr>start = 1, stop = 3, region_pairs = [1]\<rparr>]
       [1, 1, 1, 1] = Some (Inr [[0, 1, 0, 0], [1, 0, 0, 0]])
   \<and> get_result_diff 1
       [\<lparr>start = 4, stop = 6, region_pairs = [2]\<rparr>, \<lparr>start = 5, stop = 7, region_pairs = [3]\<rparr>]
       [1, 1, 1, 1] = Some (Inr [[0, 0, 0, 1], [0, 0, 1, 0]])
   \<and> pseudoknots 1 [(0, 2), (1, 3), (4, 6), (5, 7)] None
       = Some (Inr [[0, 0, 0, 1], [0, 0, 1, 0]])"
  by code_simp

text \<open>
  Claim C2. The cluster of the two crossing regions \<open>(0,2)\<close> and \<open>(1,3)\<close> with both
  weights 0: the empty solution ties with each single region, the cells left of and below
  the top right corner hold an empty and a non-empty solution each, and the cross term
  looks up the sentinel \<open>-1\<close> of the empty solution among the residue positions. The
  solver raises instead of returning the three optimal solutions.
\<close>

theorem solver_raises_on_zero_scores:
  "get_optimal_solutions
     [\<lparr>start = 0, stop = 2, region_pairs = [0]\<rparr>, \<lparr>start = 1, stop = 3, region_pairs = [1]\<rparr>]
     [0, 0] = Inl IndexError
   \<and> pseudoknots 1 [(0, 2), (1, 3)] (Some [0, 0]) = Some (Inl IndexError)"
  by code_simp

text \<open>
  Claim C8. On the input of two clusters both rows returned leave the base pairs
  \<open>(0,2)\<close> and \<open>(1,3)\<close> at order 0, and these two cross.
\<close>

theorem order_zero_pairs_cross:
  "pseudoknots 1 [(0, 2), (1, 3), (4, 6), (5, 7)] None
     = Some (Inr [[0, 0, 0, 1], [0, 0, 1, 0]])
   \<and> [0, 0, 0, 1 :: int] ! 0 = 0 \<and> [0, 0, 0, 1 :: int] ! 1 = 0
   \<and> pairs_cross ([(0, 2), (1, 3), (4, 6), (5, 7)] ! 0) ([(0, 2), (1, 3), (4, 6), (5, 7)] ! 1)"
  by code_simp

text \<open>
  Claim C7. With both weights negative the only optimal solution of the cluster
  \<open>{(0,2), (1,3)}\<close> is the empty one. Nothing is removed from the cluster, the filter
  keeps both regions, and \<^verbatim>\<open>_get_result_diff\<close> calls itself on the cluster it was
  given: the set passed down is not a strict subset, and no amount of fuel yields a result.
\<close>

lemma negative_cluster_optimum:
  "get_optimal_solutions two_crossing [- 1, - 1] = Inr (Some [[]])"
  by code_simp

lemma two_crossing_filter:
  "remove_non_conflicting_regions two_crossing = Inr two_crossing"
  by code_simp

lemma two_crossing_nonempty: "two_crossing \<noteq> []"
  by (simp add: two_crossing_def)

lemma negative_cluster_diverges:
  "get_result_diff fuel two_crossing [- 1, - 1] = None"
proof (induction fuel)
  case 0
  show ?case by simp
next
  case (Suc fuel)
  then show ?case
    by (simp add: negative_cluster_optimum two_crossing_filter ebind_def iter_def rbind_def
          diff_step_def two_crossing_nonempty)
qed

lemma two_crossing_pipeline:
  "find_regions [(0, 2), (1, 3)] = Inr two_crossing"
  "cluster_conflicts two_crossing = [two_crossing]"
  by code_simp+

text \<open>
  Claim C7, the failing run: the optimal solution is empty, the cluster passed down is the
  cluster itself, and the call returns for no fuel.
\<close>

theorem negative_scores_never_return:
  "get_optimal_solutions two_crossing [- 1, - 1] = Inr (Some [[]])
   \<and> remove_non_conflicting_regions (filter (\<lambda>r. r \<notin> set []) two_crossing) = Inr two_crossing
   \<and> (\<forall>fuel. pseudoknots fuel [(0, 2), (1, 3)] (Some [- 1, - 1]) = None)"
  by (simp add: pseudoknots_def two_crossing_pipeline two_crossing_filter
        negative_cluster_diverges negative_cluster_optimum rbind_def)

section \<open>A wrapper around two crossing regions\<close>







section \<open>All base pairs of a region get the same order\<close>

lemma regions_ok_bound:
  "regions_ok regions n \<Longrightarrow> r \<in> set regions \<Longrightarrow> p \<in> set (region_pairs r) \<Longrightarrow> p < n"
  unfolding regions_ok_def by blast

lemma regions_ok_same:
  "regions_ok regions n \<Longrightarrow> r \<in> set regions \<Longrightarrow> r' \<in> set regions
    \<Longrightarrow> p \<in> set (region_pairs r) \<Longrightarrow> p \<in> set (region_pairs r')
    \<Longrightarrow> region_pairs r = region_pairs r'"
  unfolding regions_ok_def by blast

lemma row_ok_length: "row_ok regions n row \<Longrightarrow> length row = n"
  unfolding row_ok_def by blast

lemma row_ok_eq:
  "row_ok regions n row \<Longrightarrow> r \<in> set regions \<Longrightarrow> p \<in> set (region_pairs r)
    \<Longrightarrow> q \<in> set (region_pairs r) \<Longrightarrow> row ! p = row ! q"
  unfolding row_ok_def by blast

lemma row_okI:
  "length row = n \<Longrightarrow>
   (\<And>r p q. r \<in> set regions \<Longrightarrow> p \<in> set (region_pairs r) \<Longrightarrow> q \<in> set (region_pairs r)
      \<Longrightarrow> row ! p = row ! q)
   \<Longrightarrow> row_ok regions n row"
  unfolding row_ok_def by blast

lemma ebind_eq_Inr: "ebind m f = Inr y \<Longrightarrow> \<exists>x. m = Inr x \<and> f x = Inr y"
  by (cases m) (auto simp: ebind_def)

lemma rbind_eq_Inr: "rbind m f = Some (Inr y) \<Longrightarrow> \<exists>x. m = Some (Inr x) \<and> f x = Some (Inr y)"
  by (auto simp: rbind_def split: option.splits sum.splits)

lemma argsort_perm:
  "set (argsort xs) = {0..<length xs}" "distinct (argsort xs)" "length (argsort xs) = length xs"
  by (simp_all add: argsort_def)

lemma region_init_pairs: "region_init bps rp = Inr r \<Longrightarrow> region_pairs r = rp \<and> rp \<noteq> []"
  by (auto simp: region_init_def Let_def split: if_splits)

lemma find_regions_loop_pairs:
  "find_regions_loop bps oi rk is rp regs = Inr (rp', regs')
   \<Longrightarrow> concat (map region_pairs regs') @ rp'
       = concat (map region_pairs regs) @ rp @ map (\<lambda>i. oi ! i) is"
proof (induction "is" arbitrary: rp regs)
  case Nil
  then show ?case by simp
next
  case (Cons i rest)
  show ?case
  proof (cases "length rp = 0")
    case True
    with Cons.prems have "find_regions_loop bps oi rk rest [oi ! i] regs = Inr (rp', regs')"
      by simp
    from Cons.IH [OF this] True show ?thesis by simp
  next
    case False
    show ?thesis
    proof (cases "int (rk ! (i - 1)) - int (rk ! i) \<noteq> 1")
      case True
      with False Cons.prems obtain r where r: "region_init bps rp = Inr r"
        and rec: "find_regions_loop bps oi rk rest [oi ! i] (regs @ [r]) = Inr (rp', regs')"
        by (auto dest!: ebind_eq_Inr)
      from Cons.IH [OF rec] region_init_pairs [OF r] show ?thesis by simp
    next
      case same: False
      with False Cons.prems
      have "find_regions_loop bps oi rk rest (rp @ [oi ! i]) regs = Inr (rp', regs')"
        by simp
      from Cons.IH [OF this] show ?thesis by simp
    qed
  qed
qed

lemma find_regions_pairs:
  assumes "find_regions bps = Inr regions"
  shows "distinct (concat (map region_pairs regions))"
    and "set (concat (map region_pairs regions)) = {0..<length bps}"
proof -
  define sorted_rows where "sorted_rows = map (\<lambda>(a, b). (min a b, max a b)) bps"
  define oi where "oi = argsort (map fst sorted_rows)"
  from assms obtain rp regs r rk where
    loop: "find_regions_loop bps oi rk [0..<length oi] [] [] = Inr (rp, regs)"
    and r: "region_init bps rp = Inr r" and regions: "regions = regs @ [r]"
    unfolding find_regions_def Let_def sorted_rows_def [symmetric] oi_def [symmetric]
    by (auto dest!: ebind_eq_Inr simp: argsort_perm)
  from find_regions_loop_pairs [OF loop] region_init_pairs [OF r] regions
  have "concat (map region_pairs regions) = map (\<lambda>i. oi ! i) [0..<length oi]"
    by simp
  then have eq: "concat (map region_pairs regions) = oi"
    by (simp add: map_nth)
  show "distinct (concat (map region_pairs regions))"
    unfolding eq oi_def by (rule argsort_perm)
  show "set (concat (map region_pairs regions)) = {0..<length bps}"
    unfolding eq oi_def by (simp add: argsort_perm sorted_rows_def)
qed

lemma find_regions_ok:
  assumes "find_regions bps = Inr regions"
  shows "regions_ok regions (length bps)"
proof -
  note d = find_regions_pairs [OF assms]
  have bound: "\<forall>r \<in> set regions. \<forall>p \<in> set (region_pairs r). p < length bps"
  proof (intro ballI)
    fix r p assume "r \<in> set regions" "p \<in> set (region_pairs r)"
    then have "p \<in> set (concat (map region_pairs regions))" by auto
    with d(2) show "p < length bps" by simp
  qed
  have coh: "\<forall>r \<in> set regions. \<forall>r' \<in> set regions.
         set (region_pairs r) \<inter> set (region_pairs r') \<noteq> {} \<longrightarrow> region_pairs r = region_pairs r'"
  proof (intro ballI impI)
    fix r r' assume rr: "r \<in> set regions" "r' \<in> set regions"
      and ne: "set (region_pairs r) \<inter> set (region_pairs r') \<noteq> {}"
    from rr have "region_pairs r \<in> set (map region_pairs regions)"
      "region_pairs r' \<in> set (map region_pairs regions)" by auto
    with d(1) ne show "region_pairs r = region_pairs r'"
      unfolding distinct_concat_iff by blast
  qed
  from bound coh show ?thesis unfolding regions_ok_def by blast
qed


lemma get_region_array_for_subset:
  "set (fst (get_region_array_for regions content)) \<subseteq> set regions"
proof -
  have len: "length (concat (map (\<lambda>reg. [start reg, stop reg]) regions))
      = length (concat (map (\<lambda>reg. [reg, reg]) regions))"
    by (induction regions) auto
  have mem: "set (concat (map (\<lambda>reg. [reg, reg]) regions)) \<subseteq> set regions"
    by auto
  have "concat (map (\<lambda>reg. [reg, reg]) regions) ! k \<in> set regions"
    if "k < length (concat (map (\<lambda>reg. [reg, reg]) regions))" for k
    using mem nth_mem [OF that] by blast
  then show ?thesis
    unfolding get_region_array_for_def Let_def fst_conv
    by (auto simp: argsort_perm len)
qed

lemma remove_non_conflicting_subset:
  assumes "remove_non_conflicting_regions regions = Inr cleaned"
  shows "set cleaned \<subseteq> set regions"
proof -
  obtain ra ss where g: "get_region_array_for regions (\<lambda>a. (True, False)) = (ra, ss)"
    by (cases "get_region_array_for regions (\<lambda>a. (True, False))") auto
  from get_region_array_for_subset [of regions "\<lambda>a. (True, False)"] g
  have "set ra \<subseteq> set regions" by simp
  moreover from assms g obtain tr where "cleaned = remdups (filter (\<lambda>r. r \<notin> set tr) ra)"
    unfolding remove_non_conflicting_regions_def Let_def
    by (auto dest!: ebind_eq_Inr)
  ultimately show ?thesis by auto
qed

lemma cluster_loop_subset:
  assumes "cluster_loop ra ss is tot first clusters = (first', clusters')"
    and "\<forall>c \<in> set clusters. set c \<subseteq> set ra"
  shows "\<forall>c \<in> set clusters'. set c \<subseteq> set ra"
  using assms
proof (induction "is" arbitrary: tot first clusters)
  case Nil
  then show ?case by simp
next
  case (Cons i rest)
  have sl: "set (remdups (slice ra first (i + 1))) \<subseteq> set ra"
    by (auto simp: slice_def dest: in_set_takeD in_set_dropD)
  show ?case
  proof (cases "tot + ss ! i = 0")
    case True
    with Cons.prems(1)
    have "cluster_loop ra ss rest (tot + ss ! i) (i + 1)
            (clusters @ [remdups (slice ra first (i + 1))]) = (first', clusters')"
      by (simp add: Let_def)
    moreover from Cons.prems(2) sl
    have "\<forall>c \<in> set (clusters @ [remdups (slice ra first (i + 1))]). set c \<subseteq> set ra"
      by auto
    ultimately show ?thesis by (rule Cons.IH)
  next
    case False
    with Cons.prems(1)
    have "cluster_loop ra ss rest (tot + ss ! i) first clusters = (first', clusters')"
      by (simp add: Let_def)
    then show ?thesis using Cons.prems(2) by (rule Cons.IH)
  qed
qed

lemma cluster_conflicts_subset:
  assumes "c \<in> set (cluster_conflicts regions)"
  shows "set c \<subseteq> set regions"
proof -
  obtain ra ss where g: "get_region_array_for regions (\<lambda>a. (1::int, - 1::int)) = (ra, ss)"
    by (cases "get_region_array_for regions (\<lambda>a. (1::int, - 1::int))") auto
  from get_region_array_for_subset [of regions "\<lambda>a. (1::int, - 1::int)"] g
  have ra: "set ra \<subseteq> set regions" by simp
  obtain first clusters where
    l: "cluster_loop ra ss [0..<length ss] 0 0 [] = (first, clusters)"
    by (cases "cluster_loop ra ss [0..<length ss] 0 0 []") auto
  from cluster_loop_subset [OF l] have cl: "\<forall>c \<in> set clusters. set c \<subseteq> set ra"
    by simp
  from assms g l have "c \<in> set clusters \<or> c = remdups (drop first ra)"
    unfolding cluster_conflicts_def Let_def by (auto split: if_splits)
  moreover have "set (remdups (drop first ra)) \<subseteq> set ra"
    by (auto dest: in_set_dropD)
  ultimately show ?thesis using cl ra by blast
qed

lemma fold_update_nth:
  "i < length xs \<Longrightarrow>
   fold (\<lambda>p r. r[p := f p]) ps xs ! i = (if i \<in> set ps then f i else xs ! i)"
  by (induction ps arbitrary: xs) (auto simp: nth_list_update)

lemma fold_update_length: "length (fold (\<lambda>p r. r[p := f p]) ps xs) = length xs"
  by (induction ps arbitrary: xs) auto

lemma add_one_at_nth:
  "i < length row \<Longrightarrow>
   add_one_at ps row ! i = (if i \<in> set ps then row ! i + 1 else row ! i)"
  unfolding add_one_at_def by (simp add: fold_update_nth)

lemma add_one_at_length: "length (add_one_at ps row) = length row"
  unfolding add_one_at_def by (rule fold_update_length)

lemma row_ok_add_one_at:
  assumes ok: "regions_ok regions n" and r: "r \<in> set regions" and row: "row_ok regions n row"
  shows "row_ok regions n (add_one_at (region_pairs r) row)"
proof (rule row_okI)
  show "length (add_one_at (region_pairs r) row) = n"
    using row_ok_length [OF row] by (simp add: add_one_at_length)
next
  fix r' p q assume r': "r' \<in> set regions"
    and p: "p \<in> set (region_pairs r')" and q: "q \<in> set (region_pairs r')"
  have lt: "p < length row" "q < length row"
    using regions_ok_bound [OF ok r'] p q row_ok_length [OF row] by auto
  have eq: "row ! p = row ! q" by (rule row_ok_eq [OF row r' p q])
  have "p \<in> set (region_pairs r) \<longleftrightarrow> q \<in> set (region_pairs r)"
  proof
    assume "p \<in> set (region_pairs r)"
    from regions_ok_same [OF ok r r' this p] q show "q \<in> set (region_pairs r)" by simp
  next
    assume "q \<in> set (region_pairs r)"
    from regions_ok_same [OF ok r r' this q] p show "p \<in> set (region_pairs r)" by simp
  qed
  with eq lt show "add_one_at (region_pairs r) row ! p = add_one_at (region_pairs r) row ! q"
    by (simp add: add_one_at_nth)
qed

lemma row_ok_fold_add:
  assumes ok: "regions_ok regions n" and sub: "set cluster \<subseteq> set regions"
    and row: "row_ok regions n row"
  shows "row_ok regions n (fold (\<lambda>reg. add_one_at (region_pairs reg)) cluster row)"
  using sub row
proof (induction cluster arbitrary: row)
  case Nil
  then show ?case by simp
next
  case (Cons r rest)
  from Cons.prems have "row_ok regions n (add_one_at (region_pairs r) row)"
    by (intro row_ok_add_one_at [OF ok]) auto
  with Cons.IH [of "add_one_at (region_pairs r) row"] Cons.prems(1) show ?case by simp
qed

lemma row_ok_zero:
  assumes ok: "regions_ok regions n"
  shows "row_ok regions n (replicate n 0)"
proof (rule row_okI)
  show "length (replicate n (0::int)) = n" by simp
next
  fix r p q assume "r \<in> set regions" "p \<in> set (region_pairs r)" "q \<in> set (region_pairs r)"
  then have "p < n" "q < n" using regions_ok_bound [OF ok] by blast+
  then show "replicate n (0::int) ! p = replicate n 0 ! q" by simp
qed

lemma row_ok_sum:
  assumes ok: "regions_ok regions n" and a: "row_ok regions n a" and b: "row_ok regions n b"
  shows "row_ok regions n (map2 (+) a b)"
proof (rule row_okI)
  show "length (map2 (+) a b) = n" using row_ok_length [OF a] row_ok_length [OF b] by simp
next
  fix r p q assume r: "r \<in> set regions"
    and p: "p \<in> set (region_pairs r)" and q: "q \<in> set (region_pairs r)"
  have "p < length a" "q < length a" "p < length b" "q < length b"
    using regions_ok_bound [OF ok r] p q row_ok_length [OF a] row_ok_length [OF b] by auto
  moreover have "a ! p = a ! q" "b ! p = b ! q"
    by (rule row_ok_eq [OF a r p q], rule row_ok_eq [OF b r p q])
  ultimately show "map2 (+) a b ! p = map2 (+) a b ! q" by simp
qed

lemma diff_step_rows_ok:
  assumes ok: "regions_ok regions (length scoring)"
    and rec: "\<And>c rows. set c \<subseteq> set regions \<Longrightarrow> recurse c scoring = Some (Inr rows)
               \<Longrightarrow> \<forall>row \<in> set rows. row_ok regions (length scoring) row"
    and sub: "set cluster \<subseteq> set regions"
    and res: "diff_step recurse cluster scoring sol = Some (Inr rows)"
  shows "\<forall>row \<in> set rows. row_ok regions (length scoring) row"
proof -
  define nc where "nc = filter (\<lambda>r. r \<notin> set sol) cluster"
  define results where
    "results = fold (\<lambda>reg. add_one_at (region_pairs reg)) nc (replicate (length scoring) 0)"
  have ncsub: "set nc \<subseteq> set regions" using sub by (auto simp: nc_def)
  have rok: "row_ok regions (length scoring) results"
    unfolding results_def by (intro row_ok_fold_add [OF ok ncsub] row_ok_zero [OF ok])
  from res obtain cleaned where cl: "remove_non_conflicting_regions nc = Inr cleaned"
    and rest: "(if length cleaned > 0
           then rbind (recurse cleaned scoring) (\<lambda>next_result_diff.
                  Some (Inr (map (\<lambda>diff. map2 (+) results diff) next_result_diff)))
           else Some (Inr [results])) = Some (Inr rows)"
    unfolding diff_step_def Let_def nc_def [symmetric] results_def [symmetric]
    by (auto dest!: rbind_eq_Inr)
  show ?thesis
  proof (cases "length cleaned > 0")
    case True
    with rest obtain nrd where n: "recurse cleaned scoring = Some (Inr nrd)"
      and rows: "rows = map (\<lambda>diff. map2 (+) results diff) nrd"
      by (auto dest!: rbind_eq_Inr)
    from remove_non_conflicting_subset [OF cl] ncsub have "set cleaned \<subseteq> set regions"
      by blast
    from rec [OF this n] have "\<forall>row \<in> set nrd. row_ok regions (length scoring) row" .
    with rows rok show ?thesis by (auto intro: row_ok_sum [OF ok])
  next
    case False
    with rest rok show ?thesis by auto
  qed
qed

lemma diff_loop_rows_ok:
  assumes ok: "regions_ok regions (length scoring)"
    and rec: "\<And>c rows. set c \<subseteq> set regions \<Longrightarrow> recurse c scoring = Some (Inr rows)
               \<Longrightarrow> \<forall>row \<in> set rows. row_ok regions (length scoring) row"
    and sub: "set cluster \<subseteq> set regions"
    and res: "diff_loop recurse cluster scoring sols = Some (Inr results_diff)"
  shows "\<forall>row \<in> set (concat results_diff). row_ok regions (length scoring) row"
  using res
proof (induction sols arbitrary: results_diff)
  case Nil
  then show ?case by simp
next
  case (Cons sol rest)
  from Cons.prems obtain rows rd where
    s: "diff_step recurse cluster scoring sol = Some (Inr rows)"
    and l: "diff_loop recurse cluster scoring rest = Some (Inr rd)"
    and eq: "results_diff = rows # rd"
    by (auto dest!: rbind_eq_Inr)
  from diff_step_rows_ok [OF ok rec sub s] Cons.IH [OF l] eq show ?case by auto
qed

lemma get_result_diff_rows_ok:
  assumes ok: "regions_ok regions (length scoring)"
  shows "set cluster \<subseteq> set regions \<Longrightarrow> get_result_diff fuel cluster scoring = Some (Inr rows)
    \<Longrightarrow> \<forall>row \<in> set rows. row_ok regions (length scoring) row"
proof (induction fuel arbitrary: cluster rows)
  case 0
  then show ?case by simp
next
  case (Suc fuel)
  from Suc.prems(2) obtain sols rd where
    l: "diff_loop (get_result_diff fuel) cluster scoring sols = Some (Inr rd)"
    and eq: "rows = concat rd"
    by (auto dest!: rbind_eq_Inr)
  have "\<forall>row \<in> set (concat rd). row_ok regions (length scoring) row"
    by (rule diff_loop_rows_ok [OF ok _ Suc.prems(1) l]) (rule Suc.IH)
  with eq show ?case by simp
qed

lemma clusters_loop_rows_ok:
  assumes rec: "\<And>c rows. c \<in> set clusters \<Longrightarrow> recurse c scoring = Some (Inr rows)
               \<Longrightarrow> \<forall>row \<in> set rows. P row"
    and init: "\<forall>row \<in> set results. P row"
    and res: "clusters_loop recurse clusters scoring results = Some (Inr rows)"
  shows "\<forall>row \<in> set rows. P row"
  using rec init res
proof (induction clusters arbitrary: results)
  case Nil
  then show ?case by simp
next
  case (Cons c rest)
  from Cons.prems(3) obtain r' where r': "recurse c scoring = Some (Inr r')"
    and l: "clusters_loop recurse rest scoring r' = Some (Inr rows)"
    by (auto dest!: rbind_eq_Inr)
  from Cons.prems(1) [OF _ r'] have "\<forall>row \<in> set r'. P row" by simp
  with Cons.IH [of r'] Cons.prems(1) l show ?case by auto
qed

text \<open>
  Claim C10. In every row that \<^verbatim>\<open>pseudoknots\<close> returns, any two base pairs of one region
  have the same order: an increment is applied to all positions of a region at once, and
  the regions of the recursion are always among those found at the start.
\<close>

theorem region_members_same_order:
  assumes res: "pseudoknots fuel base_pairs scoring_arg = Some (Inr rows)"
    and row: "row \<in> set rows"
    and regs: "find_regions base_pairs = Inr regions"
    and reg: "reg \<in> set regions"
    and p: "p \<in> set (region_pairs reg)" and q: "q \<in> set (region_pairs reg)"
  shows "row ! p = row ! q"
proof -
  define scoring where
    "scoring = (case scoring_arg of None \<Rightarrow> replicate (length base_pairs) (1::int) | Some s \<Rightarrow> s)"
  from res have len: "length base_pairs = length scoring"
    unfolding pseudoknots_def Let_def scoring_def by (auto split: if_splits)
  from find_regions_ok [OF regs] len have ok: "regions_ok regions (length scoring)" by simp
  from res regs len obtain cleaned results where
    cl: "remove_non_conflicting_regions regions = Inr cleaned"
    and loop: "clusters_loop (get_result_diff fuel) (cluster_conflicts cleaned) scoring
                 [replicate (length scoring) 0] = Some (Inr results)"
    and rows: "rows = results"
    unfolding pseudoknots_def Let_def scoring_def [symmetric]
    by (auto dest!: rbind_eq_Inr split: if_splits)
  have "\<forall>row \<in> set results. row_ok regions (length scoring) row"
  proof (rule clusters_loop_rows_ok [OF _ _ loop])
    fix c rs assume c: "c \<in> set (cluster_conflicts cleaned)"
      and r: "get_result_diff fuel c scoring = Some (Inr rs)"
    from cluster_conflicts_subset [OF c] remove_non_conflicting_subset [OF cl]
    have "set c \<subseteq> set regions" by blast
    from get_result_diff_rows_ok [OF ok this r]
    show "\<forall>row \<in> set rs. row_ok regions (length scoring) row" .
  next
    show "\<forall>row \<in> set [replicate (length scoring) 0]. row_ok regions (length scoring) row"
      by (simp add: row_ok_zero [OF ok])
  qed
  with row rows have "row_ok regions (length scoring) row" by simp
  from row_ok_eq [OF this reg p q] show ?thesis .
qed

theorem region_members_same_order_witness:
  "pseudoknots 1 [(0, 5), (1, 4), (2, 7)] None = Some (Inr [[0, 0, 1]])
   \<and> find_regions [(0, 5), (1, 4), (2, 7)]
       = Inr [\<lparr>start = 0, stop = 5, region_pairs = [0, 1]\<rparr>, \<lparr>start = 2, stop = 7, region_pairs = [2]\<rparr>]
   \<and> [0, 0, 1 :: int] ! 0 = [0, 0, 1] ! 1"
proof -
  have a: "pseudoknots 1 [(0, 5), (1, 4), (2, 7)] None = Some (Inr [[0, 0, 1]])"
    by code_simp
  have b: "find_regions [(0, 5), (1, 4), (2, 7)]
      = Inr [\<lparr>start = 0, stop = 5, region_pairs = [0, 1]\<rparr>, \<lparr>start = 2, stop = 7, region_pairs = [2]\<rparr>]"
    by code_simp
  have "[0, 0, 1 :: int] ! 0 = [0, 0, 1] ! 1"
    by (rule region_members_same_order [OF a _ b, of _ "\<lparr>start = 0, stop = 5, region_pairs = [0, 1]\<rparr>"])
       simp_all
  with a b show ?thesis by simp
qed

section \<open>Input without conflict\<close>






























lemma find_regions_loop_total:
  "\<exists>rp' regs'. find_regions_loop bps oi rk is rp regs = Inr (rp', regs')
      \<and> (rp \<noteq> [] \<or> is \<noteq> [] \<longrightarrow> rp' \<noteq> [])"
proof (induction "is" arbitrary: rp regs)
  case Nil
  then show ?case by simp
next
  case (Cons i rest)
  show ?case
  proof (cases "length rp = 0")
    case True
    with Cons.IH [of "[oi ! i]" regs] show ?thesis by auto
  next
    case False
    show ?thesis
    proof (cases "int (rk ! (i - 1)) - int (rk ! i) \<noteq> 1")
      case True
      from False obtain r where r: "region_init bps rp = Inr r"
        by (auto simp: region_init_def Let_def)
      with Cons.IH [of "[oi ! i]" "regs @ [r]"] False True show ?thesis
        by (auto simp: ebind_def)
    next
      case same: False
      with Cons.IH [of "rp @ [oi ! i]" regs] False show ?thesis by auto
    qed
  qed
qed

lemma find_regions_total:
  assumes "bps \<noteq> []"
  shows "\<exists>regions. find_regions bps = Inr regions"
proof -
  define sorted_rows where "sorted_rows = map (\<lambda>(a, b). (min a b, max a b)) bps"
  define oi where "oi = argsort (map fst sorted_rows)"
  define rk where "rk = argsort (map int (argsort (map snd (map (\<lambda>i. sorted_rows ! i) oi))))"
  have len: "length oi = length bps" by (simp add: oi_def argsort_perm sorted_rows_def)
  with assms have ne: "[0..<length oi] \<noteq> []" by simp
  from find_regions_loop_total [of bps oi rk "[0..<length oi]" "[]" "[]"] ne
  obtain rp regs where loop: "find_regions_loop bps oi rk [0..<length oi] [] [] = Inr (rp, regs)"
    and rp: "rp \<noteq> []" by blast
  from rp obtain r where "region_init bps rp = Inr r"
    by (auto simp: region_init_def Let_def)
  with loop show ?thesis
    unfolding find_regions_def Let_def sorted_rows_def [symmetric] oi_def [symmetric]
      rk_def [symmetric]
    by (simp add: ebind_def)
qed





end
